theory Spec2Isabelle
  imports Complex_Main
begin

section \<open>JavaScript numbers\<close>

text \<open>
  A JavaScript \<^verbatim>\<open>number\<close> is a finite value, one of the two infinities, or NaN.
  Finite values are taken as exact reals: the rounding of IEEE doubles is not part of
  this development, the non-finite values and the comparison rules of NaN are.
\<close>

datatype jsnum = Fin real | PosInf | NegInf | NaN

text \<open>The operator \<^verbatim>\<open><\<close>: every comparison with NaN is false.\<close>

fun js_lt :: "jsnum \<Rightarrow> jsnum \<Rightarrow> bool" where
  "js_lt (Fin a) (Fin b) = (a < b)"
| "js_lt (Fin a) PosInf = True"
| "js_lt NegInf (Fin b) = True"
| "js_lt NegInf PosInf = True"
| "js_lt _ _ = False"

text \<open>The operator \<^verbatim>\<open><=\<close>.\<close>

fun js_le :: "jsnum \<Rightarrow> jsnum \<Rightarrow> bool" where
  "js_le NaN _ = False"
| "js_le _ NaN = False"
| "js_le (Fin a) (Fin b) = (a \<le> b)"
| "js_le NegInf _ = True"
| "js_le _ PosInf = True"
| "js_le _ _ = False"

text \<open>The operator \<^verbatim>\<open>+\<close>: opposite infinities add to NaN.\<close>

fun js_add :: "jsnum \<Rightarrow> jsnum \<Rightarrow> jsnum" where
  "js_add (Fin a) (Fin b) = Fin (a + b)"
| "js_add NaN _ = NaN"
| "js_add _ NaN = NaN"
| "js_add PosInf NegInf = NaN"
| "js_add NegInf PosInf = NaN"
| "js_add PosInf _ = PosInf"
| "js_add _ PosInf = PosInf"
| "js_add NegInf _ = NegInf"
| "js_add _ NegInf = NegInf"

text \<open>Unary minus and the operator \<^verbatim>\<open>-\<close>.\<close>

fun js_neg :: "jsnum \<Rightarrow> jsnum" where
  "js_neg (Fin a) = Fin (- a)"
| "js_neg PosInf = NegInf"
| "js_neg NegInf = PosInf"
| "js_neg NaN = NaN"

definition js_sub :: "jsnum \<Rightarrow> jsnum \<Rightarrow> jsnum" where
  "js_sub a b = js_add a (js_neg b)"

text \<open>\<^verbatim>\<open>Math.abs\<close>, \<^verbatim>\<open>Math.max\<close>, \<^verbatim>\<open>Math.min\<close> (NaN if an argument is NaN)
  and \<^verbatim>\<open>Math.round\<close> (to the nearest integer, a tie going up).\<close>

fun Math_abs :: "jsnum \<Rightarrow> jsnum" where
  "Math_abs (Fin a) = Fin \<bar>a\<bar>"
| "Math_abs PosInf = PosInf"
| "Math_abs NegInf = PosInf"
| "Math_abs NaN = NaN"

fun Math_max :: "jsnum \<Rightarrow> jsnum \<Rightarrow> jsnum" where
  "Math_max NaN _ = NaN"
| "Math_max _ NaN = NaN"
| "Math_max (Fin a) (Fin b) = Fin (max a b)"
| "Math_max PosInf _ = PosInf"
| "Math_max _ PosInf = PosInf"
| "Math_max NegInf b = b"
| "Math_max a NegInf = a"

fun Math_min :: "jsnum \<Rightarrow> jsnum \<Rightarrow> jsnum" where
  "Math_min NaN _ = NaN"
| "Math_min _ NaN = NaN"
| "Math_min (Fin a) (Fin b) = Fin (min a b)"
| "Math_min NegInf _ = NegInf"
| "Math_min _ NegInf = NegInf"
| "Math_min PosInf b = b"
| "Math_min a PosInf = a"

definition js_round :: "real \<Rightarrow> int" where
  "js_round v = \<lfloor>v + 1 / 2\<rfloor>"

fun Math_round :: "jsnum \<Rightarrow> jsnum" where
  "Math_round (Fin a) = Fin (of_int (js_round a))"
| "Math_round PosInf = PosInf"
| "Math_round NegInf = NegInf"
| "Math_round NaN = NaN"


section \<open>Regions\<close>

datatype BlurMode = pixelate | solid

text \<open>
  The interface \<^verbatim>\<open>BlurRegion\<close>; the fields carry the prefix \<open>reg_\<close>. The block size,
  a \<^verbatim>\<open>number\<close> in the source, is an integer: the slider that sets it gives integers.
\<close>

record BlurRegion =
  reg_id :: string
  reg_x :: jsnum
  reg_y :: jsnum
  reg_width :: jsnum
  reg_height :: jsnum
  reg_mode :: BlurMode
  reg_blockSize :: int
  reg_fillColor :: string

section \<open>The region store of \<^verbatim>\<open>useRegions\<close>\<close>

text \<open>
  The state of the hook: the \<^verbatim>\<open>regions\<close> array and the two snapshot stacks. A stack
  is a list in array order, \<^verbatim>\<open>push\<close> appends and \<^verbatim>\<open>pop\<close> takes the last element.

  The function passed to \<^verbatim>\<open>setRegions\<close> is an updater. React keeps it in a queue and
  calls it when it next renders the component, after the event handler has returned;
  when the component has no update pending React may also call it at once, inside
  \<^verbatim>\<open>setRegions\<close>. An operation below is one event handler together with the render
  that follows it. \<^verbatim>\<open>addRegion\<close> and \<^verbatim>\<open>removeRegion\<close> have no statement after the
  call, and in \<^verbatim>\<open>undo\<close> and \<^verbatim>\<open>redo\<close> the \<^verbatim>\<open>pop\<close> comes before it and the updater
  touches the other stack: for them both schedules give one result. \<^verbatim>\<open>clearRegions\<close>
  resets the stacks after the call, and takes the schedule as a parameter.
\<close>

datatype schedule = AtCall | AtRender

record store =
  regions :: "BlurRegion list"
  undoStack :: "BlurRegion list list"
  redoStack :: "BlurRegion list list"

definition emptyStore :: store where
  "emptyStore = \<lparr>regions = [], undoStack = [], redoStack = []\<rparr>"

definition pushUndo :: "BlurRegion list \<Rightarrow> store \<Rightarrow> store" where
  "pushUndo current s = s\<lparr>undoStack := undoStack s @ [current], redoStack := []\<rparr>"

text \<open>
  \<^verbatim>\<open>addRegion\<close>. The helper \<^verbatim>\<open>generateId\<close> is not part of the sources at hand; the
  identifier it would return is the parameter \<open>gid\<close>. The result is the returned
  identifier (\<open>None\<close> for the early \<^verbatim>\<open>return\<close>) and the store after the call.
\<close>

definition addRegion ::
  "string \<Rightarrow> jsnum \<Rightarrow> jsnum \<Rightarrow> jsnum \<Rightarrow> jsnum \<Rightarrow> BlurMode \<Rightarrow> int \<Rightarrow> string \<Rightarrow> store
     \<Rightarrow> string option \<times> store" where
  "addRegion gid x y width height mode blockSize fillColor s =
     (let nx = (if js_lt width (Fin 0) then js_add x width else x);
          ny = (if js_lt height (Fin 0) then js_add y height else y);
          nw = Math_abs width;
          nh = Math_abs height
      in if js_lt nw (Fin 2) \<or> js_lt nh (Fin 2) then (None, s)
         else
           let region = \<lparr>reg_id = gid, reg_x = nx, reg_y = ny, reg_width = nw,
                 reg_height = nh, reg_mode = mode, reg_blockSize = blockSize,
                 reg_fillColor = fillColor\<rparr>;
               prev = regions s
           in (Some (reg_id region), (pushUndo prev s)\<lparr>regions := prev @ [region]\<rparr>))"

definition removeRegion :: "string \<Rightarrow> store \<Rightarrow> store" where
  "removeRegion rid s =
     (let prev = regions s
      in (pushUndo prev s)\<lparr>regions := filter (\<lambda>r. reg_id r \<noteq> rid) prev\<rparr>)"

definition clearRegions :: "schedule \<Rightarrow> store \<Rightarrow> store" where
  "clearRegions sched s =
     (let updater = (\<lambda>s. let prev = regions s
                          in (if length prev > 0 then pushUndo prev s else s)\<lparr>regions := []\<rparr>);
          reset = (\<lambda>s. s\<lparr>undoStack := [], redoStack := []\<rparr>)
      in case sched of
           AtCall \<Rightarrow> reset (updater s)
         | AtRender \<Rightarrow> updater (reset s))"

definition undo :: "store \<Rightarrow> store" where
  "undo s =
     (if undoStack s = [] then s
      else let prev = last (undoStack s);
               s1 = s\<lparr>undoStack := butlast (undoStack s)\<rparr>;
               current = regions s1
           in s1\<lparr>redoStack := redoStack s1 @ [current], regions := prev\<rparr>)"

definition redo :: "store \<Rightarrow> store" where
  "redo s =
     (if redoStack s = [] then s
      else let next = last (redoStack s);
               s1 = s\<lparr>redoStack := butlast (redoStack s)\<rparr>;
               current = regions s1
           in s1\<lparr>undoStack := undoStack s1 @ [current], regions := next\<rparr>)"

definition canUndo :: "store \<Rightarrow> bool" where
  "canUndo s = (length (undoStack s) > 0)"

definition canRedo :: "store \<Rightarrow> bool" where
  "canRedo s = (length (redoStack s) > 0)"

text \<open>
  A caller's sequence of operations on the store, and the loops
  \<^verbatim>\<open>while (canUndo) undo()\<close> and \<^verbatim>\<open>while (canRedo) redo()\<close>.
\<close>

datatype op =
    Add string jsnum jsnum jsnum jsnum BlurMode int string
  | Remove string
  | Clear schedule
  | Undo
  | Redo

fun apply_op :: "op \<Rightarrow> store \<Rightarrow> store" where
  "apply_op (Add gid x y w h m bs fc) s = snd (addRegion gid x y w h m bs fc s)"
| "apply_op (Remove rid) s = removeRegion rid s"
| "apply_op (Clear sched) s = clearRegions sched s"
| "apply_op Undo s = undo s"
| "apply_op Redo s = redo s"

definition run :: "op list \<Rightarrow> store \<Rightarrow> store" where
  "run ops s = fold apply_op ops s"

fun is_mutation :: "op \<Rightarrow> bool" where
  "is_mutation Undo = False"
| "is_mutation Redo = False"
| "is_mutation _ = True"

fun updater_at_call :: "op \<Rightarrow> bool" where
  "updater_at_call (Clear AtRender) = False"
| "updater_at_call _ = True"


function undoAll :: "store \<Rightarrow> store" where
  "undoAll s = (if canUndo s then undoAll (undo s) else s)"
  by pat_completeness auto
termination
  by (relation "measure (\<lambda>s. length (undoStack s))") (auto simp: canUndo_def undo_def Let_def)

function redoAll :: "store \<Rightarrow> store" where
  "redoAll s = (if canRedo s then redoAll (redo s) else s)"
  by pat_completeness auto
termination
  by (relation "measure (\<lambda>s. length (redoStack s))") (auto simp: canRedo_def redo_def Let_def)

declare undoAll.simps [simp del] redoAll.simps [simp del]


section \<open>The zoom level of \<^verbatim>\<open>useCanvasRenderer\<close>\<close>

text \<open>
  The scroll container as \<^verbatim>\<open>zoomAt\<close> reads it (\<open>None\<close> while the ref is unset), the
  anchor it records, and the view state: the \<^verbatim>\<open>zoom\<close> state and \<^verbatim>\<open>zoomAnchorRef\<close>.
  Pointer coordinates and element metrics are finite.
\<close>

record container =
  rect_left :: real
  rect_top :: real
  scrollWidth :: real
  scrollHeight :: real
  scrollLeft :: real
  scrollTop :: real

record ZoomAnchor =
  containerX :: real
  containerY :: real
  fractionX :: real
  fractionY :: real

record view =
  zoom :: jsnum
  zoomAnchorRef :: "ZoomAnchor option"

definition initialView :: view where
  "initialView = \<lparr>zoom = Fin 1, zoomAnchorRef = None\<rparr>"

definition zoomAt :: "jsnum \<Rightarrow> real \<Rightarrow> real \<Rightarrow> container option \<Rightarrow> view \<Rightarrow> view" where
  "zoomAt newZoom clientX clientY cont v =
     (case cont of
        None \<Rightarrow> v
      | Some c \<Rightarrow>
          let cX = clientX - rect_left c;
              cY = clientY - rect_top c;
              canvasW = scrollWidth c;
              canvasH = scrollHeight c;
              absX = scrollLeft c + cX;
              absY = scrollTop c + cY
          in v\<lparr>zoomAnchorRef := Some \<lparr>containerX = cX, containerY = cY,
                   fractionX = (if canvasW > 0 then absX / canvasW else 0),
                   fractionY = (if canvasH > 0 then absY / canvasH else 0)\<rparr>,
                zoom := Math_min (Fin 5) (Math_max (Fin (1 / 2)) newZoom)\<rparr>)"

definition zoomIn :: "view \<Rightarrow> view" where
  "zoomIn v = v\<lparr>zoom := Math_min (js_add (zoom v) (Fin (1 / 2))) (Fin 5)\<rparr>"

definition zoomOut :: "view \<Rightarrow> view" where
  "zoomOut v = v\<lparr>zoom := Math_max (js_sub (zoom v) (Fin (1 / 2))) (Fin (1 / 2))\<rparr>"

definition zoomReset :: "view \<Rightarrow> view" where
  "zoomReset v = v\<lparr>zoom := Fin 1\<rparr>"

datatype zoom_call =
    ZoomAt jsnum real real "container option"
  | ZoomIn
  | ZoomOut
  | ZoomReset

fun zoom_step :: "zoom_call \<Rightarrow> view \<Rightarrow> view" where
  "zoom_step (ZoomAt z cx cy cont) v = zoomAt z cx cy cont v"
| "zoom_step ZoomIn v = zoomIn v"
| "zoom_step ZoomOut v = zoomOut v"
| "zoom_step ZoomReset v = zoomReset v"

fun target_not_NaN :: "zoom_call \<Rightarrow> bool" where
  "target_not_NaN (ZoomAt z cx cy cont) = (z \<noteq> NaN)"
| "target_not_NaN _ = True"

text \<open>The zoom level lies in the closed interval from 0.5 to 5.\<close>

definition zoom_in_bounds :: "view \<Rightarrow> bool" where
  "zoom_in_bounds v = (js_le (Fin (1 / 2)) (zoom v) \<and> js_le (zoom v) (Fin 5))"

section \<open>The 2D canvas\<close>

text \<open>
  The browser's canvas is the platform under \<^verbatim>\<open>image-processor\<close>. A context holds the
  canvas size, the RGBA bytes of the bitmap in row-major order (four per pixel) and the
  current fill colour. The data model has opaque RGB fill colours, so \<open>fillStyle\<close> is a
  triple and a fill writes alpha 255; the parser of CSS colour strings is a parameter.
\<close>

record ctx2d =
  canvas_width :: int
  canvas_height :: int
  pixels :: "int list"
  fillStyle :: "int \<times> int \<times> int"


record ImageData =
  img_width :: int
  img_height :: int
  img_data :: "int list"

datatype dom_exception = IndexSizeError


text \<open>Channel \<open>k\<close> (0 to 3) of the pixel at \<open>(px, py)\<close>; transparent black off the bitmap.\<close>

definition channel_at :: "ctx2d \<Rightarrow> int \<Rightarrow> int \<Rightarrow> int \<Rightarrow> int" where
  "channel_at c px py k =
     (if 0 \<le> px \<and> px < canvas_width c \<and> 0 \<le> py \<and> py < canvas_height c
      then pixels c ! nat ((py * canvas_width c + px) * 4 + k) else 0)"

text \<open>
  The conversion of an argument to a Web IDL \<^verbatim>\<open>long\<close>: truncation, with 0 for NaN and
  the infinities (the reduction modulo \<open>2^32\<close> is left out, canvas sizes are far below).
\<close>

fun to_long :: "jsnum \<Rightarrow> int" where
  "to_long (Fin v) = (if 0 \<le> v then \<lfloor>v\<rfloor> else \<lceil>v\<rceil>)"
| "to_long _ = 0"

text \<open>\<^verbatim>\<open>getImageData(sx, sy, sw, sh)\<close>: a zero width or height raises, a negative
  one spans the rectangle to the other side.\<close>

definition getImageData ::
  "ctx2d \<Rightarrow> jsnum \<Rightarrow> jsnum \<Rightarrow> jsnum \<Rightarrow> jsnum \<Rightarrow> dom_exception + ImageData" where
  "getImageData c sx sy sw sh =
     (let w = to_long sw; h = to_long sh;
          x0 = min (to_long sx) (to_long sx + w);
          y0 = min (to_long sy) (to_long sy + h)
      in if w = 0 \<or> h = 0 then Inl IndexSizeError
         else Inr \<lparr>img_width = \<bar>w\<bar>, img_height = \<bar>h\<bar>,
                img_data = map (\<lambda>i. channel_at c (x0 + (i div 4) mod \<bar>w\<bar>)
                                       (y0 + (i div 4) div \<bar>w\<bar>) (i mod 4))
                             [0..4 * \<bar>w\<bar> * \<bar>h\<bar> - 1]\<rparr>)"

text \<open>\<^verbatim>\<open>putImageData(imageData, dx, dy)\<close>: the bytes are copied, nothing is blended.\<close>

definition putImageData :: "ctx2d \<Rightarrow> ImageData \<Rightarrow> jsnum \<Rightarrow> jsnum \<Rightarrow> ctx2d" where
  "putImageData c img dx dy =
     (let x0 = to_long dx; y0 = to_long dy; iw = img_width img; ih = img_height img
      in c\<lparr>pixels :=
           map (\<lambda>j. let p = j div 4; px = p mod canvas_width c; py = p div canvas_width c
                    in if x0 \<le> px \<and> px < x0 + iw \<and> y0 \<le> py \<and> py < y0 + ih
                       then img_data img ! nat (((py - y0) * iw + (px - x0)) * 4 + j mod 4)
                       else pixels c ! nat j)
               [0..int (length (pixels c)) - 1]\<rparr>)"

text \<open>
  \<^verbatim>\<open>fillRect(x, y, w, h)\<close> returns at once when an argument is not finite. It is called
  with rounded coordinates here: a pixel is painted when its unit square lies in the
  rectangle, and partial coverage does not arise.
\<close>

definition fillRect :: "ctx2d \<Rightarrow> jsnum \<Rightarrow> jsnum \<Rightarrow> jsnum \<Rightarrow> jsnum \<Rightarrow> ctx2d" where
  "fillRect c x y w h =
     (case (x, y, w, h) of
        (Fin xr, Fin yr, Fin wr, Fin hr) \<Rightarrow>
          (let x0 = min xr (xr + wr); x1 = max xr (xr + wr);
               y0 = min yr (yr + hr); y1 = max yr (yr + hr)
           in c\<lparr>pixels :=
                map (\<lambda>j. let p = j div 4; px = p mod canvas_width c; py = p div canvas_width c
                         in if x0 \<le> of_int px \<and> of_int px + 1 \<le> x1
                               \<and> y0 \<le> of_int py \<and> of_int py + 1 \<le> y1
                            then (case fillStyle c of (r, g, b) \<Rightarrow>
                                    if j mod 4 = 0 then r else if j mod 4 = 1 then g
                                    else if j mod 4 = 2 then b else 255)
                            else pixels c ! nat j)
                    [0..int (length (pixels c)) - 1]\<rparr>)
      | _ \<Rightarrow> c)"

section \<open>The effects of \<^verbatim>\<open>image-processor\<close>\<close>

text \<open>
  Reads and writes of the \<^verbatim>\<open>Uint8ClampedArray\<close> \<open>data\<close>. A write clamps to 0..255 and
  is dropped out of range. A read out of range is \<^verbatim>\<open>undefined\<close> in JavaScript; the
  loops below read only inside the array, and the model returns 0 there.
\<close>

definition rd :: "int list \<Rightarrow> int \<Rightarrow> int" where
  "rd data i = (if 0 \<le> i \<and> i < int (length data) then data ! nat i else 0)"

definition wr :: "int list \<Rightarrow> int \<Rightarrow> int \<Rightarrow> int list" where
  "wr data i v =
     (if 0 \<le> i \<and> i < int (length data) then data[nat i := max 0 (min 255 v)] else data)"

text \<open>The two inner loop nests of one block: the sums with the pixel count, and the fill.\<close>

definition block_sum ::
  "int list \<Rightarrow> int \<Rightarrow> int \<Rightarrow> int \<Rightarrow> int \<Rightarrow> int \<Rightarrow> int \<times> int \<times> int \<times> int \<times> int" where
  "block_sum data cw blockX blockY bw bh =
     fold (\<lambda>py. fold (\<lambda>px (r, g, b, a, count).
                        let i = (py * cw + px) * 4
                        in (r + rd data i, g + rd data (i + 1), b + rd data (i + 2),
                            a + rd data (i + 3), count + 1))
                      [blockX..blockX + bw - 1])
          [blockY..blockY + bh - 1] (0, 0, 0, 0, 0)"

definition block_fill ::
  "int list \<Rightarrow> int \<Rightarrow> int \<Rightarrow> int \<Rightarrow> int \<Rightarrow> int \<Rightarrow> int \<Rightarrow> int \<Rightarrow> int \<Rightarrow> int \<Rightarrow> int list" where
  "block_fill data cw blockX blockY bw bh avgR avgG avgB avgA =
     fold (\<lambda>py. fold (\<lambda>px d.
                        let i = (py * cw + px) * 4
                        in wr (wr (wr (wr d i avgR) (i + 1) avgG) (i + 2) avgB) (i + 3) avgA)
                      [blockX..blockX + bw - 1])
          [blockY..blockY + bh - 1] data"

text \<open>
  The body of the inner block loop. With an empty block \<open>count\<close> is 0 and the averages
  are NaN in JavaScript; nothing is written then, and the quotient by 0 is unused.
\<close>

definition pixelate_block :: "int \<Rightarrow> int \<Rightarrow> int \<Rightarrow> int \<Rightarrow> int \<Rightarrow> int list \<Rightarrow> int list" where
  "pixelate_block blockSize cw ch blockY blockX data =
     (let bw = min blockSize (cw - blockX);
          bh = min blockSize (ch - blockY)
      in case block_sum data cw blockX blockY bw bh of
           (r, g, b, a, count) \<Rightarrow>
             let avgR = js_round (of_int r / of_int count);
                 avgG = js_round (of_int g / of_int count);
                 avgB = js_round (of_int b / of_int count);
                 avgA = js_round (of_int a / of_int count)
             in block_fill data cw blockX blockY bw bh avgR avgG avgB avgA)"

text \<open>
  The two block loops step by \<open>blockSize\<close> and need not end: \<open>None\<close> is a loop that runs
  forever.
\<close>

partial_function (option) blockX_loop ::
  "int \<Rightarrow> int \<Rightarrow> int \<Rightarrow> int \<Rightarrow> int \<Rightarrow> int list \<Rightarrow> int list option" where
  "blockX_loop blockSize cw ch blockY blockX data =
     (if blockX < cw
      then blockX_loop blockSize cw ch blockY (blockX + blockSize)
             (pixelate_block blockSize cw ch blockY blockX data)
      else Some data)"

partial_function (option) blockY_loop ::
  "int \<Rightarrow> int \<Rightarrow> int \<Rightarrow> int \<Rightarrow> int list \<Rightarrow> int list option" where
  "blockY_loop blockSize cw ch blockY data =
     (if blockY < ch
      then Option.bind (blockX_loop blockSize cw ch blockY 0 data)
             (\<lambda>d. blockY_loop blockSize cw ch (blockY + blockSize) d)
      else Some data)"

declare blockX_loop.simps [code] blockY_loop.simps [code]

text \<open>
  \<^verbatim>\<open>applyPixelation\<close>: \<open>None\<close> when the block loops do not end, \<open>Some (Inl e)\<close> when
  \<^verbatim>\<open>getImageData\<close> raises, \<open>Some (Inr ctx)\<close> with the context after the call otherwise.
  Past \<^verbatim>\<open>getImageData\<close> the numbers \<open>cw\<close> and \<open>ch\<close> are integers.
\<close>

definition applyPixelation :: "ctx2d \<Rightarrow> BlurRegion \<Rightarrow> (dom_exception + ctx2d) option" where
  "applyPixelation ctx region =
     (let blockSize = reg_blockSize region;
          cx = Math_max (Fin 0) (Math_round (reg_x region));
          cy = Math_max (Fin 0) (Math_round (reg_y region));
          cw = Math_min (Math_round (reg_width region))
                 (js_sub (Fin (of_int (canvas_width ctx))) cx);
          ch = Math_min (Math_round (reg_height region))
                 (js_sub (Fin (of_int (canvas_height ctx))) cy)
      in if js_le cw (Fin 0) \<or> js_le ch (Fin 0) then Some (Inr ctx)
         else case getImageData ctx cx cy cw ch of
                Inl e \<Rightarrow> Some (Inl e)
              | Inr imageData \<Rightarrow>
                  (case blockY_loop blockSize (to_long cw) (to_long ch) 0 (img_data imageData) of
                     None \<Rightarrow> None
                   | Some data \<Rightarrow>
                       Some (Inr (putImageData ctx (imageData\<lparr>img_data := data\<rparr>) cx cy))))"





section \<open>Notions for the statements\<close>

text \<open>
  Channel \<open>k\<close> of the pixel \<open>(px, py)\<close> of an image buffer of width \<open>cw\<close>, the value a
  \<^verbatim>\<open>Uint8ClampedArray\<close> keeps of a write, the four writes of one pixel, the sum of a
  channel over a block, its rounded mean, and the start of the block of a coordinate.
  Then the invariants of the store used below.
\<close>

definition pix :: "int list \<Rightarrow> int \<Rightarrow> int \<Rightarrow> int \<Rightarrow> int \<Rightarrow> int" where
  "pix data cw px py k = rd data ((py * cw + px) * 4 + k)"

definition chan :: "int \<Rightarrow> int \<Rightarrow> int \<Rightarrow> int \<Rightarrow> int \<Rightarrow> int" where
  "chan k aR aG aB aA = (if k = 0 then aR else if k = 1 then aG else if k = 2 then aB else aA)"

definition clamp8 :: "int \<Rightarrow> int" where
  "clamp8 v = max 0 (min 255 v)"

definition block_total :: "(int \<Rightarrow> int \<Rightarrow> int) \<Rightarrow> int \<Rightarrow> int \<Rightarrow> int \<Rightarrow> int \<Rightarrow> int" where
  "block_total f bx by bw bh = (\<Sum>yy\<leftarrow>[by..by + bh - 1]. \<Sum>xx\<leftarrow>[bx..bx + bw - 1]. f xx yy)"

definition block_mean :: "(int \<Rightarrow> int \<Rightarrow> int) \<Rightarrow> int \<Rightarrow> int \<Rightarrow> int \<Rightarrow> int \<Rightarrow> int" where
  "block_mean f bx by bw bh = js_round (of_int (block_total f bx by bw bh) / of_int (bw * bh))"

definition put4 :: "int list \<Rightarrow> int \<Rightarrow> int \<Rightarrow> int \<Rightarrow> int \<Rightarrow> int \<Rightarrow> int list" where
  "put4 d i aR aG aB aA = wr (wr (wr (wr d i aR) (i + 1) aG) (i + 2) aB) (i + 3) aA"

definition block_start :: "int \<Rightarrow> int \<Rightarrow> int" where
  "block_start bs p = (p div bs) * bs"


definition hist_inv :: "store \<Rightarrow> bool" where
  "hist_inv s =
     (redoStack s = []
      \<and> (if undoStack s = [] then regions s = [] else hd (undoStack s) = []))"

section \<open>Properties of the region store\<close>

subsection \<open>Normalisation and rejection in \<^verbatim>\<open>addRegion\<close>\<close>


lemma addRegion_accepted:
  assumes "2 \<le> \<bar>w\<bar>" and "2 \<le> \<bar>h\<bar>"
  shows "addRegion gid (Fin x) (Fin y) (Fin w) (Fin h) m bs fc s =
     (Some gid,
      \<lparr>regions = regions s @
         [\<lparr>reg_id = gid, reg_x = Fin (min x (x + w)), reg_y = Fin (min y (y + h)),
           reg_width = Fin \<bar>w\<bar>, reg_height = Fin \<bar>h\<bar>, reg_mode = m,
           reg_blockSize = bs, reg_fillColor = fc\<rparr>],
       undoStack = undoStack s @ [regions s], redoStack = []\<rparr>)"
  using assms by (auto simp: addRegion_def Let_def pushUndo_def min_def)



text \<open>
  C8. A call of \<^verbatim>\<open>addRegion\<close> whose normalised width or height is below 2 returns
  nothing and leaves the whole store as it was: the collection, both stacks, and with
  them \<open>canUndo\<close> and \<open>canRedo\<close>.
\<close>

theorem addRegion_below_minimum_noop:
  assumes "js_lt (Math_abs width) (Fin 2) \<or> js_lt (Math_abs height) (Fin 2)"
  shows "addRegion gid x y width height m bs fc s = (None, s)
       \<and> length (regions (snd (addRegion gid x y width height m bs fc s))) = length (regions s)
       \<and> undoStack (snd (addRegion gid x y width height m bs fc s)) = undoStack s
       \<and> canUndo (snd (addRegion gid x y width height m bs fc s)) = canUndo s"
  using assms by (simp add: addRegion_def Let_def)

theorem addRegion_below_minimum_noop_witness:
  "(js_lt (Math_abs (Fin 1)) (Fin 2) \<or> js_lt (Math_abs (Fin 1)) (Fin 2))
   \<and> addRegion ''b'' (Fin 5) (Fin 5) (Fin 1) (Fin 1) solid 10 ''#000000''
        \<lparr>regions = [], undoStack = [[]], redoStack = []\<rparr>
      = (None, \<lparr>regions = [], undoStack = [[]], redoStack = []\<rparr>)
   \<and> canUndo (snd (addRegion ''b'' (Fin 5) (Fin 5) (Fin 1) (Fin 1) solid 10 ''#000000''
        \<lparr>regions = [], undoStack = [[]], redoStack = []\<rparr>))"
  using addRegion_below_minimum_noop [of "Fin 1" "Fin 1" "''b''" "Fin 5" "Fin 5" solid 10
      "''#000000''" "\<lparr>regions = [], undoStack = [[]], redoStack = []\<rparr>"]
  by (simp add: canUndo_def)

subsection \<open>Non-finite geometry\<close>










subsection \<open>History\<close>

lemma clearRegions_at_call: "clearRegions AtCall s = emptyStore"
  by (simp add: clearRegions_def emptyStore_def Let_def pushUndo_def)

lemma clearRegions_at_render:
  "clearRegions AtRender s =
     \<lparr>regions = [], undoStack = (if regions s = [] then [] else [regions s]), redoStack = []\<rparr>"
  by (simp add: clearRegions_def Let_def pushUndo_def)

text \<open>
  C3, on the code. From the empty store, add A, add B, then \<^verbatim>\<open>clearRegions\<close>. When the
  updater runs at the call, the collection and both stacks are empty afterwards. When it
  runs at the next render, the stacks are reset first and the updater then pushes the
  collection \<open>[A, B]\<close>: the collection is empty and \<open>canRedo\<close> is false, but the undo
  stack holds one snapshot and \<open>canUndo\<close> is true.
\<close>

theorem clearRegions_deferred_updater_keeps_snapshot:
  "regions (snd (addRegion ''b'' (Fin 5) (Fin 5) (Fin 8) (Fin 8) solid 10 ''#000000''
       (snd (addRegion ''a'' (Fin 0) (Fin 0) (Fin 4) (Fin 4) pixelate 10 ''#000000''
          emptyStore))))
     = [\<lparr>reg_id = ''a'', reg_x = Fin 0, reg_y = Fin 0, reg_width = Fin 4, reg_height = Fin 4,
          reg_mode = pixelate, reg_blockSize = 10, reg_fillColor = ''#000000''\<rparr>,
        \<lparr>reg_id = ''b'', reg_x = Fin 5, reg_y = Fin 5, reg_width = Fin 8, reg_height = Fin 8,
          reg_mode = solid, reg_blockSize = 10, reg_fillColor = ''#000000''\<rparr>]
   \<and> clearRegions AtRender
        (snd (addRegion ''b'' (Fin 5) (Fin 5) (Fin 8) (Fin 8) solid 10 ''#000000''
          (snd (addRegion ''a'' (Fin 0) (Fin 0) (Fin 4) (Fin 4) pixelate 10 ''#000000''
             emptyStore))))
     = \<lparr>regions = [],
         undoStack =
           [[\<lparr>reg_id = ''a'', reg_x = Fin 0, reg_y = Fin 0, reg_width = Fin 4,
               reg_height = Fin 4, reg_mode = pixelate, reg_blockSize = 10,
               reg_fillColor = ''#000000''\<rparr>,
             \<lparr>reg_id = ''b'', reg_x = Fin 5, reg_y = Fin 5, reg_width = Fin 8,
               reg_height = Fin 8, reg_mode = solid, reg_blockSize = 10,
               reg_fillColor = ''#000000''\<rparr>]],
         redoStack = []\<rparr>
   \<and> canUndo (clearRegions AtRender
        (snd (addRegion ''b'' (Fin 5) (Fin 5) (Fin 8) (Fin 8) solid 10 ''#000000''
          (snd (addRegion ''a'' (Fin 0) (Fin 0) (Fin 4) (Fin 4) pixelate 10 ''#000000''
             emptyStore)))))
   \<and> \<not> canRedo (clearRegions AtRender
        (snd (addRegion ''b'' (Fin 5) (Fin 5) (Fin 8) (Fin 8) solid 10 ''#000000''
          (snd (addRegion ''a'' (Fin 0) (Fin 0) (Fin 4) (Fin 4) pixelate 10 ''#000000''
             emptyStore)))))
   \<and> clearRegions AtCall
        (snd (addRegion ''b'' (Fin 5) (Fin 5) (Fin 8) (Fin 8) solid 10 ''#000000''
          (snd (addRegion ''a'' (Fin 0) (Fin 0) (Fin 4) (Fin 4) pixelate 10 ''#000000''
             emptyStore))))
     = \<lparr>regions = [], undoStack = [], redoStack = []\<rparr>"
  by (simp add: clearRegions_at_render clearRegions_at_call addRegion_def Let_def pushUndo_def
        emptyStore_def canUndo_def canRedo_def)

lemma undoAll_eq:
  "undoStack s = U \<Longrightarrow> undoAll s =
     (if U = [] then s
      else s\<lparr>regions := hd U, undoStack := [],
             redoStack := redoStack s @ [regions s] @ rev (tl U)\<rparr>)"
proof (induction U arbitrary: s rule: rev_induct)
  case Nil
  then show ?case by (subst undoAll.simps) (simp add: canUndo_def)
next
  case (snoc u U)
  have cu: "canUndo s" using snoc.prems by (simp add: canUndo_def)
  have us: "undoStack (undo s) = U" using snoc.prems by (simp add: undo_def Let_def)
  have "undoAll s = undoAll (undo s)" using cu by (subst undoAll.simps) simp
  also note snoc.IH[OF us]
  finally show ?case using snoc.prems
    by (cases U) (auto simp: undo_def Let_def)
qed

lemma redoAll_eq:
  "redoStack s = R \<Longrightarrow> redoAll s =
     (if R = [] then s
      else s\<lparr>regions := hd R, redoStack := [],
             undoStack := undoStack s @ [regions s] @ rev (tl R)\<rparr>)"
proof (induction R arbitrary: s rule: rev_induct)
  case Nil
  then show ?case by (subst redoAll.simps) (simp add: canRedo_def)
next
  case (snoc u R)
  have cr: "canRedo s" using snoc.prems by (simp add: canRedo_def)
  have rs: "redoStack (redo s) = R" using snoc.prems by (simp add: redo_def Let_def)
  have "redoAll s = redoAll (redo s)" using cr by (subst redoAll.simps) simp
  also note snoc.IH[OF rs]
  finally show ?case using snoc.prems
    by (cases R) (auto simp: redo_def Let_def)
qed

text \<open>
  What a sequence of add, remove and clear keeps true when every updater runs at the
  call: nothing to redo, and the oldest snapshot, when there is one, is the empty
  collection. For either schedule the redo stack is empty after such a sequence.
\<close>

lemma hist_inv_step:
  "is_mutation opn \<Longrightarrow> updater_at_call opn \<Longrightarrow> hist_inv s \<Longrightarrow> hist_inv (apply_op opn s)"
proof (cases opn)
  case (Clear sched)
  assume "updater_at_call opn"
  then have "sched = AtCall" using Clear by (cases sched) auto
  then show ?thesis using Clear by (simp add: clearRegions_at_call hist_inv_def emptyStore_def)
qed (auto simp: hist_inv_def addRegion_def removeRegion_def pushUndo_def Let_def
       split: if_splits)

lemma hist_inv_run:
  "\<forall>opn\<in>set ops. is_mutation opn \<and> updater_at_call opn \<Longrightarrow> hist_inv s
     \<Longrightarrow> hist_inv (run ops s)"
  unfolding run_def by (induction ops arbitrary: s) (auto simp: hist_inv_step)

lemma roundtrip_inv:
  assumes "hist_inv s"
  shows "regions (undoAll s) = [] \<and> \<not> canUndo (undoAll s)
       \<and> redoAll (undoAll s) = s \<and> \<not> canRedo (redoAll (undoAll s))"
proof (cases "undoStack s = []")
  case True
  then have "undoAll s = s" by (simp add: undoAll_eq)
  moreover have "redoAll s = s" using assms by (simp add: redoAll_eq hist_inv_def)
  ultimately show ?thesis
    using assms True by (simp add: hist_inv_def canUndo_def canRedo_def)
next
  case False
  then obtain u U where U: "undoStack s = u # U" by (cases "undoStack s") auto
  show ?thesis using assms U
    by (simp add: undoAll_eq[OF refl] redoAll_eq[OF refl] hist_inv_def canUndo_def canRedo_def)
qed

lemma undo_redo_roundtrip_at_call:
  assumes "\<forall>opn\<in>set ops. is_mutation opn \<and> updater_at_call opn"
  shows "regions (undoAll (run ops emptyStore)) = []
       \<and> \<not> canUndo (undoAll (run ops emptyStore))
       \<and> redoAll (undoAll (run ops emptyStore)) = run ops emptyStore
       \<and> \<not> canRedo (redoAll (undoAll (run ops emptyStore)))"
proof -
  have "hist_inv (run ops emptyStore)"
    by (rule hist_inv_run[OF assms]) (simp add: hist_inv_def emptyStore_def)
  from roundtrip_inv[OF this] show ?thesis by metis
qed

lemma redo_empty_step: "is_mutation opn \<Longrightarrow> redoStack s = [] \<Longrightarrow> redoStack (apply_op opn s) = []"
proof (cases opn)
  case (Clear sched)
  then show ?thesis by (cases sched) (simp_all add: clearRegions_at_call clearRegions_at_render
      emptyStore_def)
qed (auto simp: addRegion_def removeRegion_def pushUndo_def Let_def)

lemma redo_empty_run:
  "\<forall>opn\<in>set ops. is_mutation opn \<Longrightarrow> redoStack s = [] \<Longrightarrow> redoStack (run ops s) = []"
  unfolding run_def by (induction ops arbitrary: s) (auto simp: redo_empty_step)

lemma redoAll_undoAll:
  assumes "redoStack s = []"
  shows "redoAll (undoAll s) = s"
proof (cases "undoStack s = []")
  case True
  then have "undoAll s = s" by (simp add: undoAll_eq)
  moreover have "redoAll s = s" using assms by (simp add: redoAll_eq)
  ultimately show ?thesis by simp
next
  case False
  then obtain u U where U: "undoStack s = u # U" by (cases "undoStack s") auto
  show ?thesis using assms U by (simp add: undoAll_eq[OF refl] redoAll_eq[OF refl])
qed

lemma redo_restores_any_schedule:
  assumes "\<forall>opn\<in>set ops. is_mutation opn"
  shows "redoAll (undoAll (run ops emptyStore)) = run ops emptyStore"
  by (rule redoAll_undoAll) (rule redo_empty_run[OF assms], simp add: emptyStore_def)

text \<open>
  C4, on the code. From the empty store, add A, then \<^verbatim>\<open>clearRegions\<close> with the updater
  run at the next render: the collection is empty, and undoing until \<open>canUndo\<close> is false
  gives the collection \<open>[A]\<close>, not the empty one. Redoing from there gives back the
  store after the sequence.
\<close>

theorem undo_after_deferred_clear_restores_regions:
  "regions (run [Add ''a'' (Fin 0) (Fin 0) (Fin 4) (Fin 4) pixelate 10 ''#000000'',
                 Clear AtRender] emptyStore) = []
   \<and> regions (undoAll (run [Add ''a'' (Fin 0) (Fin 0) (Fin 4) (Fin 4) pixelate 10 ''#000000'',
                 Clear AtRender] emptyStore))
      = [\<lparr>reg_id = ''a'', reg_x = Fin 0, reg_y = Fin 0, reg_width = Fin 4, reg_height = Fin 4,
           reg_mode = pixelate, reg_blockSize = 10, reg_fillColor = ''#000000''\<rparr>]
   \<and> \<not> canUndo (undoAll (run [Add ''a'' (Fin 0) (Fin 0) (Fin 4) (Fin 4) pixelate 10
                 ''#000000'', Clear AtRender] emptyStore))
   \<and> redoAll (undoAll (run [Add ''a'' (Fin 0) (Fin 0) (Fin 4) (Fin 4) pixelate 10 ''#000000'',
                 Clear AtRender] emptyStore))
      = run [Add ''a'' (Fin 0) (Fin 0) (Fin 4) (Fin 4) pixelate 10 ''#000000'',
             Clear AtRender] emptyStore"
  by (simp add: run_def addRegion_def clearRegions_at_render pushUndo_def emptyStore_def Let_def
        undoAll_eq[OF refl] redoAll_eq[OF refl] canUndo_def)

section \<open>Properties of the zoom level\<close>

lemma clamp_bounds:
  "z \<noteq> NaN \<Longrightarrow>
     js_le (Fin (1 / 2)) (Math_min (Fin 5) (Math_max (Fin (1 / 2)) z))
     \<and> js_le (Math_min (Fin 5) (Math_max (Fin (1 / 2)) z)) (Fin 5)"
  by (cases z) auto

lemma zoom_step_bounds:
  "target_not_NaN c \<Longrightarrow> zoom_in_bounds v \<Longrightarrow> zoom_in_bounds (zoom_step c v)"
proof (cases c)
  case (ZoomAt z cx cy cont)
  assume "target_not_NaN c" "zoom_in_bounds v"
  then show ?thesis using ZoomAt clamp_bounds[of z]
    by (cases cont) (auto simp: zoomAt_def zoom_in_bounds_def Let_def)
next
  case ZoomIn
  assume "zoom_in_bounds v"
  then show ?thesis using ZoomIn
    by (cases "zoom v") (auto simp: zoomIn_def zoom_in_bounds_def)
next
  case ZoomOut
  assume "zoom_in_bounds v"
  then show ?thesis using ZoomOut
    by (cases "zoom v") (auto simp: zoomOut_def zoom_in_bounds_def js_sub_def)
next
  case ZoomReset
  then show ?thesis by (simp add: zoomReset_def zoom_in_bounds_def)
qed

lemma zoom_fold_bounds:
  "\<forall>c\<in>set calls. target_not_NaN c \<Longrightarrow> zoom_in_bounds v
     \<Longrightarrow> zoom_in_bounds (fold zoom_step calls v)"
  by (induction calls arbitrary: v) (auto simp: zoom_step_bounds)

text \<open>
  C9, as the code has it. From the default zoom 1, after any sequence of \<^verbatim>\<open>zoomAt\<close>,
  \<^verbatim>\<open>zoomIn\<close>, \<^verbatim>\<open>zoomOut\<close> and \<^verbatim>\<open>zoomReset\<close> in which no \<^verbatim>\<open>zoomAt\<close> is given NaN as
  its target, the zoom is a number between 0.5 and 5. Infinite targets are clamped.
\<close>

theorem zoom_stays_in_bounds:
  assumes "\<forall>c\<in>set calls. target_not_NaN c"
  shows "zoom_in_bounds (fold zoom_step calls initialView)"
  by (rule zoom_fold_bounds[OF assms]) (simp add: zoom_in_bounds_def initialView_def)

theorem zoom_stays_in_bounds_witness:
  "list_all target_not_NaN
      [ZoomAt PosInf 3 4
         (Some \<lparr>rect_left = 0, rect_top = 0, scrollWidth = 100, scrollHeight = 100,
                 scrollLeft = 0, scrollTop = 0\<rparr>),
       ZoomIn, ZoomOut, ZoomAt (Fin (1 / 10)) 0 0 None, ZoomOut, ZoomOut]
   \<and> zoom_in_bounds (fold zoom_step
        [ZoomAt PosInf 3 4
           (Some \<lparr>rect_left = 0, rect_top = 0, scrollWidth = 100, scrollHeight = 100,
                   scrollLeft = 0, scrollTop = 0\<rparr>),
         ZoomIn, ZoomOut, ZoomAt (Fin (1 / 10)) 0 0 None, ZoomOut, ZoomOut] initialView)
   \<and> zoom (fold zoom_step
        [ZoomAt PosInf 3 4
           (Some \<lparr>rect_left = 0, rect_top = 0, scrollWidth = 100, scrollHeight = 100,
                   scrollLeft = 0, scrollTop = 0\<rparr>),
         ZoomIn, ZoomOut, ZoomAt (Fin (1 / 10)) 0 0 None, ZoomOut, ZoomOut] initialView)
      = Fin (7 / 2)"
  using zoom_stays_in_bounds
    [of "[ZoomAt PosInf 3 4
            (Some \<lparr>rect_left = 0, rect_top = 0, scrollWidth = 100, scrollHeight = 100,
                    scrollLeft = 0, scrollTop = 0\<rparr>),
          ZoomIn, ZoomOut, ZoomAt (Fin (1 / 10)) 0 0 None, ZoomOut, ZoomOut]"]
  by (simp add: zoomAt_def zoomIn_def zoomOut_def initialView_def js_sub_def Let_def)

text \<open>
  C9, as stated, fails: \<^verbatim>\<open>Math.max\<close> and \<^verbatim>\<open>Math.min\<close> return NaN for a NaN target,
  and NaN is not between 0.5 and 5.
\<close>

theorem zoomAt_NaN_counterexample:
  "zoom (zoomAt NaN 0 0
           (Some \<lparr>rect_left = 0, rect_top = 0, scrollWidth = 100, scrollHeight = 100,
                   scrollLeft = 0, scrollTop = 0\<rparr>) initialView) = NaN
   \<and> \<not> zoom_in_bounds (zoomAt NaN 0 0
           (Some \<lparr>rect_left = 0, rect_top = 0, scrollWidth = 100, scrollHeight = 100,
                   scrollLeft = 0, scrollTop = 0\<rparr>) initialView)"
  by (simp add: zoomAt_def zoom_in_bounds_def Let_def)

section \<open>Properties of the pixel effects\<close>

subsection \<open>Indices, reads and writes\<close>

lemma idx_div4: fixes p k :: int shows "0 \<le> k \<Longrightarrow> k < 4 \<Longrightarrow> (p * 4 + k) div 4 = p"
  by simp

lemma idx_mod4: fixes p k :: int shows "0 \<le> k \<Longrightarrow> k < 4 \<Longrightarrow> (p * 4 + k) mod 4 = k"
  by simp



lemma cell_inj:
  fixes x y px py cw :: int
  assumes "0 \<le> x" "x < cw" "0 \<le> px" "px < cw"
  shows "y * cw + x = py * cw + px \<longleftrightarrow> x = px \<and> y = py"
proof
  assume e: "y * cw + x = py * cw + px"
  have "(y * cw + x) mod cw = x" "(py * cw + px) mod cw = px"
    "(y * cw + x) div cw = y" "(py * cw + px) div cw = py"
    using assms by simp_all
  with e show "x = px \<and> y = py" by metis
qed simp

lemma cell_bound:
  fixes x y cw ch :: int
  assumes "0 \<le> x" "x < cw" "0 \<le> y" "y < ch"
  shows "0 \<le> y * cw + x \<and> y * cw + x < cw * ch"
proof -
  have "y * cw \<le> (ch - 1) * cw" using assms by (intro mult_right_mono) auto
  then have "y * cw + x < cw * ch" using assms by (simp add: algebra_simps)
  moreover have "0 \<le> y * cw" using assms by simp
  ultimately show ?thesis using assms by simp
qed

lemma idx_bound:
  fixes x y cw ch k :: int
  assumes "0 \<le> x" "x < cw" "0 \<le> y" "y < ch" "0 \<le> k" "k < 4"
  shows "0 \<le> (y * cw + x) * 4 + k \<and> (y * cw + x) * 4 + k < 4 * cw * ch"
  using cell_bound[OF assms(1-4)] assms(5,6) by simp

lemma length_wr [simp]: "length (wr d i v) = length d"
  by (simp add: wr_def)

lemma rd_wr:
  "0 \<le> j \<Longrightarrow> j < int (length d) \<Longrightarrow> rd (wr d i v) j = (if j = i then clamp8 v else rd d j)"
  by (auto simp: rd_def wr_def clamp8_def nth_list_update)

lemma length_put4 [simp]: "length (put4 d i aR aG aB aA) = length d"
  by (simp add: put4_def)

lemma rd_put4:
  assumes "0 \<le> j" "j < int (length d)"
  shows "rd (put4 d (p * 4) aR aG aB aA) j
       = (if j div 4 = p then clamp8 (chan (j mod 4) aR aG aB aA) else rd d j)"
proof -
  have e: "rd (put4 d (p * 4) aR aG aB aA) j
     = (if j = p * 4 + 3 then clamp8 aA else if j = p * 4 + 2 then clamp8 aB
        else if j = p * 4 + 1 then clamp8 aG else if j = p * 4 then clamp8 aR else rd d j)"
    using assms by (simp add: put4_def rd_wr)
  show ?thesis
  proof (cases "j div 4 = p")
    case True
    then have "j = p * 4 \<or> j = p * 4 + 1 \<or> j = p * 4 + 2 \<or> j = p * 4 + 3"
      by presburger
    then consider "j = p * 4" | "j = p * 4 + 1" | "j = p * 4 + 2" | "j = p * 4 + 3"
      by blast
    then show ?thesis
    proof cases
      case 1 then show ?thesis unfolding e by (simp add: chan_def)
    next
      case 2 then show ?thesis unfolding e by (simp add: chan_def)
    next
      case 3 then show ?thesis unfolding e by (simp add: chan_def)
    next
      case 4 then show ?thesis unfolding e by (simp add: chan_def)
    qed
  next
    case False
    then have "j \<noteq> p * 4" "j \<noteq> p * 4 + 1" "j \<noteq> p * 4 + 2" "j \<noteq> p * 4 + 3"
      by presburger+
    then show ?thesis unfolding e using False by simp
  qed
qed

lemma length_fill_row [simp]:
  "length (fold (\<lambda>px d. put4 d (f px * 4) aR aG aB aA) xs d) = length d"
  by (induction xs arbitrary: d) simp_all

lemma rd_fill_row:
  "0 \<le> j \<Longrightarrow> j < int (length d) \<Longrightarrow>
     rd (fold (\<lambda>px d. put4 d (f px * 4) aR aG aB aA) xs d) j
     = (if \<exists>px\<in>set xs. j div 4 = f px then clamp8 (chan (j mod 4) aR aG aB aA) else rd d j)"
proof (induction xs arbitrary: d)
  case Nil
  then show ?case by simp
next
  case (Cons a xs)
  have "rd (fold (\<lambda>px d. put4 d (f px * 4) aR aG aB aA) xs (put4 d (f a * 4) aR aG aB aA)) j
     = (if \<exists>px\<in>set xs. j div 4 = f px then clamp8 (chan (j mod 4) aR aG aB aA)
        else rd (put4 d (f a * 4) aR aG aB aA) j)"
    using Cons.prems by (intro Cons.IH) simp_all
  then show ?case using Cons.prems by (simp add: rd_put4)
qed

lemma length_fill_rows [simp]:
  "length (fold (\<lambda>py. fold (\<lambda>px d. put4 d (f py px * 4) aR aG aB aA) xs) ys d) = length d"
  by (induction ys arbitrary: d) simp_all

lemma rd_fill_rows:
  "0 \<le> j \<Longrightarrow> j < int (length d) \<Longrightarrow>
     rd (fold (\<lambda>py. fold (\<lambda>px d. put4 d (f py px * 4) aR aG aB aA) xs) ys d) j
     = (if \<exists>py\<in>set ys. \<exists>px\<in>set xs. j div 4 = f py px
        then clamp8 (chan (j mod 4) aR aG aB aA) else rd d j)"
proof (induction ys arbitrary: d)
  case Nil
  then show ?case by simp
next
  case (Cons a ys)
  let ?d1 = "fold (\<lambda>px d. put4 d (f a px * 4) aR aG aB aA) xs d"
  have "rd (fold (\<lambda>py. fold (\<lambda>px d. put4 d (f py px * 4) aR aG aB aA) xs) ys ?d1) j
     = (if \<exists>py\<in>set ys. \<exists>px\<in>set xs. j div 4 = f py px
        then clamp8 (chan (j mod 4) aR aG aB aA) else rd ?d1 j)"
    using Cons.prems by (intro Cons.IH) simp_all
  then show ?case using Cons.prems by (simp add: rd_fill_row)
qed

lemma block_fill_put4:
  "block_fill data cw bX bY bw bh aR aG aB aA
     = fold (\<lambda>py. fold (\<lambda>px d. put4 d ((py * cw + px) * 4) aR aG aB aA) [bX..bX + bw - 1])
         [bY..bY + bh - 1] data"
  by (simp only: block_fill_def put4_def Let_def)

lemma length_block_fill [simp]:
  "length (block_fill data cw bX bY bw bh aR aG aB aA) = length data"
  unfolding block_fill_put4 by (rule length_fill_rows)

lemma rd_block_fill:
  "0 \<le> j \<Longrightarrow> j < int (length data) \<Longrightarrow>
     rd (block_fill data cw bX bY bw bh aR aG aB aA) j
     = (if \<exists>py\<in>set [bY..bY + bh - 1]. \<exists>px\<in>set [bX..bX + bw - 1]. j div 4 = py * cw + px
        then clamp8 (chan (j mod 4) aR aG aB aA) else rd data j)"
  unfolding block_fill_put4 by (rule rd_fill_rows)

lemma sum_row:
  "fold (\<lambda>px (r, g, b, a, count).
            let i = f px * 4
            in (r + rd data i, g + rd data (i + 1), b + rd data (i + 2),
                a + rd data (i + 3), count + 1)) xs (r, g, b, a, n)
   = (r + (\<Sum>px\<leftarrow>xs. rd data (f px * 4)), g + (\<Sum>px\<leftarrow>xs. rd data (f px * 4 + 1)),
      b + (\<Sum>px\<leftarrow>xs. rd data (f px * 4 + 2)), a + (\<Sum>px\<leftarrow>xs. rd data (f px * 4 + 3)),
      n + int (length xs))"
  by (induction xs arbitrary: r g b a n) (simp_all add: Let_def)

lemma sum_rows:
  "fold (\<lambda>py. fold (\<lambda>px (r, g, b, a, count).
            let i = f py px * 4
            in (r + rd data i, g + rd data (i + 1), b + rd data (i + 2),
                a + rd data (i + 3), count + 1)) xs) ys (r, g, b, a, n)
   = (r + (\<Sum>py\<leftarrow>ys. \<Sum>px\<leftarrow>xs. rd data (f py px * 4)),
      g + (\<Sum>py\<leftarrow>ys. \<Sum>px\<leftarrow>xs. rd data (f py px * 4 + 1)),
      b + (\<Sum>py\<leftarrow>ys. \<Sum>px\<leftarrow>xs. rd data (f py px * 4 + 2)),
      a + (\<Sum>py\<leftarrow>ys. \<Sum>px\<leftarrow>xs. rd data (f py px * 4 + 3)),
      n + int (length ys) * int (length xs))"
proof (induction ys arbitrary: r g b a n)
  case Nil
  then show ?case by simp
next
  case (Cons y ys)
  show ?case by (simp add: sum_row[where f = "f y"] Cons.IH add.assoc distrib_right)
qed

lemma block_sum_eq:
  assumes "0 \<le> bw" "0 \<le> bh"
  shows "block_sum data cw bX bY bw bh
     = (block_total (\<lambda>x y. pix data cw x y 0) bX bY bw bh,
        block_total (\<lambda>x y. pix data cw x y 1) bX bY bw bh,
        block_total (\<lambda>x y. pix data cw x y 2) bX bY bw bh,
        block_total (\<lambda>x y. pix data cw x y 3) bX bY bw bh,
        bw * bh)"
proof -
  have "block_sum data cw bX bY bw bh
     = fold (\<lambda>py. fold (\<lambda>px (r, g, b, a, count).
            let i = (py * cw + px) * 4
            in (r + rd data i, g + rd data (i + 1), b + rd data (i + 2),
                a + rd data (i + 3), count + 1)) [bX..bX + bw - 1]) [bY..bY + bh - 1] (0, 0, 0, 0, 0)"
    by (simp only: block_sum_def)
  also have "\<dots> = (0 + (\<Sum>py\<leftarrow>[bY..bY + bh - 1]. \<Sum>px\<leftarrow>[bX..bX + bw - 1]. rd data ((py * cw + px) * 4)),
      0 + (\<Sum>py\<leftarrow>[bY..bY + bh - 1]. \<Sum>px\<leftarrow>[bX..bX + bw - 1]. rd data ((py * cw + px) * 4 + 1)),
      0 + (\<Sum>py\<leftarrow>[bY..bY + bh - 1]. \<Sum>px\<leftarrow>[bX..bX + bw - 1]. rd data ((py * cw + px) * 4 + 2)),
      0 + (\<Sum>py\<leftarrow>[bY..bY + bh - 1]. \<Sum>px\<leftarrow>[bX..bX + bw - 1]. rd data ((py * cw + px) * 4 + 3)),
      0 + int (length [bY..bY + bh - 1]) * int (length [bX..bX + bw - 1]))"
    by (rule sum_rows)
  also have "\<dots> = (block_total (\<lambda>x y. pix data cw x y 0) bX bY bw bh,
        block_total (\<lambda>x y. pix data cw x y 1) bX bY bw bh,
        block_total (\<lambda>x y. pix data cw x y 2) bX bY bw bh,
        block_total (\<lambda>x y. pix data cw x y 3) bX bY bw bh,
        bw * bh)"
    using assms by (simp add: block_total_def pix_def)
  finally show ?thesis .
qed

subsection \<open>Blocks\<close>

lemma block_start_eq:
  assumes "1 \<le> bs" "m mod bs = 0" "m \<le> x" "x < m + bs"
  shows "block_start bs x = m"
proof -
  define q where "q = m div bs"
  have m: "q * bs = m" using assms(2) by (auto simp: q_def)
  have r: "(x - m) div bs = 0" using assms by (intro div_pos_pos_trivial) auto
  have "(x - m + q * bs) div bs = q + (x - m) div bs"
    using assms(1) by (intro div_mult_self1) auto
  moreover have "x - m + q * bs = x" unfolding m by simp
  ultimately have "x div bs = q" using r by simp
  then show ?thesis unfolding block_start_def using m by simp
qed

lemma block_start_ge:
  assumes "1 \<le> bs" "m mod bs = 0" "m \<le> x"
  shows "m \<le> block_start bs x"
proof -
  define q where "q = m div bs"
  have m: "q * bs = m" using assms(2) by (auto simp: q_def)
  have "q \<le> x div bs" unfolding q_def using assms by (intro zdiv_mono1) auto
  then have "q * bs \<le> (x div bs) * bs" using assms(1) by (intro mult_right_mono) auto
  then show ?thesis unfolding m block_start_def .
qed

lemma block_start_bounds:
  assumes "1 \<le> bs"
  shows "block_start bs x \<le> x \<and> x < block_start bs x + bs"
proof -
  have "x = (x div bs) * bs + x mod bs" by simp
  moreover have "0 \<le> x mod bs" "x mod bs < bs" using assms by auto
  ultimately show ?thesis unfolding block_start_def by linarith
qed


lemma block_start_nonneg: "1 \<le> bs \<Longrightarrow> 0 \<le> x \<Longrightarrow> 0 \<le> block_start bs x"
  using block_start_ge[of bs 0 x] by simp

lemma block_total_cong:
  assumes "\<And>xx yy. bx \<le> xx \<Longrightarrow> xx < bx + bw \<Longrightarrow> by \<le> yy \<Longrightarrow> yy < by + bh \<Longrightarrow> f xx yy = g xx yy"
  shows "block_total f bx by bw bh = block_total g bx by bw bh"
  unfolding block_total_def
  by (intro arg_cong[where f = sum_list] map_cong refl) (auto simp: assms)

lemma block_mean_cong:
  assumes "\<And>xx yy. bx \<le> xx \<Longrightarrow> xx < bx + bw \<Longrightarrow> by \<le> yy \<Longrightarrow> yy < by + bh \<Longrightarrow> f xx yy = g xx yy"
  shows "block_mean f bx by bw bh = block_mean g bx by bw bh"
  unfolding block_mean_def using block_total_cong[of bx bw "by" bh f g] assms by simp

lemma pix_pixelate_block:
  assumes bs: "1 \<le> bs" and bX: "0 \<le> bX" "bX < cw" and bY: "0 \<le> bY" "bY < ch"
    and len: "int (length data) = 4 * cw * ch"
    and x: "0 \<le> x" "x < cw" and y: "0 \<le> y" "y < ch" and k: "0 \<le> k" "k < 4"
  shows "pix (pixelate_block bs cw ch bY bX data) cw x y k
       = (if bX \<le> x \<and> x < bX + min bs (cw - bX) \<and> bY \<le> y \<and> y < bY + min bs (ch - bY)
          then clamp8 (block_mean (\<lambda>xx yy. pix data cw xx yy k) bX bY
                         (min bs (cw - bX)) (min bs (ch - bY)))
          else pix data cw x y k)"
proof -
  define bw bh where "bw = min bs (cw - bX)" and "bh = min bs (ch - bY)"
  define j where "j = (y * cw + x) * 4 + k"
  have pos: "0 \<le> bw" "0 \<le> bh" "bX + bw \<le> cw" using bs bX bY by (auto simp: bw_def bh_def)
  have jb: "0 \<le> j \<and> j < 4 * cw * ch" unfolding j_def by (rule idx_bound[OF x y k])
  have jd: "j div 4 = y * cw + x" unfolding j_def by (rule idx_div4[OF k])
  have jm: "j mod 4 = k" unfolding j_def by (rule idx_mod4[OF k])
  have j: "0 \<le> j" "j < int (length data)" "j div 4 = y * cw + x" "j mod 4 = k"
    using jb jd jm len by simp_all
  define aR aG aB aA where
    "aR = block_mean (\<lambda>xx yy. pix data cw xx yy 0) bX bY bw bh" and
    "aG = block_mean (\<lambda>xx yy. pix data cw xx yy 1) bX bY bw bh" and
    "aB = block_mean (\<lambda>xx yy. pix data cw xx yy 2) bX bY bw bh" and
    "aA = block_mean (\<lambda>xx yy. pix data cw xx yy 3) bX bY bw bh"
  have pb: "pixelate_block bs cw ch bY bX data = block_fill data cw bX bY bw bh aR aG aB aA"
    by (simp only: pixelate_block_def Let_def bw_def[symmetric] bh_def[symmetric]
      block_sum_eq[OF pos(1,2)] aR_def aG_def aB_def aA_def block_mean_def prod.case)
  have mem: "(\<exists>py\<in>set [bY..bY + bh - 1]. \<exists>px\<in>set [bX..bX + bw - 1]. y * cw + x = py * cw + px)
      \<longleftrightarrow> (bX \<le> x \<and> x < bX + bw \<and> bY \<le> y \<and> y < bY + bh)" (is "?L \<longleftrightarrow> ?R")
  proof
    assume ?L
    then obtain py px where p: "bY \<le> py" "py \<le> bY + bh - 1" "bX \<le> px" "px \<le> bX + bw - 1"
      "y * cw + x = py * cw + px" by auto
    have "0 \<le> px" "px < cw" using p bX pos by auto
    with cell_inj[OF x this] p(5) have "x = px" "y = py" by auto
    with p show ?R by auto
  next
    assume ?R
    then show ?L by (intro bexI[of _ y] bexI[of _ x]) auto
  qed
  have ch: "chan k aR aG aB aA = block_mean (\<lambda>xx yy. pix data cw xx yy k) bX bY bw bh"
  proof -
    have "k = 0 \<or> k = 1 \<or> k = 2 \<or> k = 3" using k by auto
    then show ?thesis by (auto simp: chan_def aR_def aG_def aB_def aA_def)
  qed
  have "pix (pixelate_block bs cw ch bY bX data) cw x y k
      = rd (block_fill data cw bX bY bw bh aR aG aB aA) j"
    by (simp only: pix_def pb j_def)
  also have "\<dots> = (if \<exists>py\<in>set [bY..bY + bh - 1]. \<exists>px\<in>set [bX..bX + bw - 1]. j div 4 = py * cw + px
        then clamp8 (chan (j mod 4) aR aG aB aA) else rd data j)"
    by (rule rd_block_fill[OF j(1,2)])
  also have "\<dots> = (if bX \<le> x \<and> x < bX + bw \<and> bY \<le> y \<and> y < bY + bh
        then clamp8 (block_mean (\<lambda>xx yy. pix data cw xx yy k) bX bY bw bh) else pix data cw x y k)"
    unfolding j(3,4) mem ch by (simp only: pix_def j_def)
  finally show ?thesis unfolding bw_def bh_def .
qed

lemma length_pixelate_block [simp]:
  "length (pixelate_block bs cw ch bY bX data) = length data"
  unfolding pixelate_block_def Let_def by (simp split: prod.splits)

subsection \<open>The block loops\<close>

lemma blockX_loop_result:
  assumes "1 \<le> bs" "0 \<le> bY" "bY < ch" "0 \<le> bX" "bX mod bs = 0"
    "int (length data) = 4 * cw * ch"
  shows "\<exists>d'. blockX_loop bs cw ch bY bX data = Some d' \<and> length d' = length data
      \<and> (\<forall>x y k. 0 \<le> x \<and> x < cw \<and> 0 \<le> y \<and> y < ch \<and> 0 \<le> k \<and> k < 4 \<longrightarrow>
            pix d' cw x y k
            = (if bX \<le> x \<and> bY \<le> y \<and> y < bY + min bs (ch - bY)
               then clamp8 (block_mean (\<lambda>xx yy. pix data cw xx yy k) (block_start bs x) bY
                              (min bs (cw - block_start bs x)) (min bs (ch - bY)))
               else pix data cw x y k))"
  using assms
proof (induction "nat (cw - bX)" arbitrary: bX data rule: less_induct)
  case less
  note bs = \<open>1 \<le> bs\<close> and bY = \<open>0 \<le> bY\<close> \<open>bY < ch\<close> and bX = \<open>0 \<le> bX\<close> \<open>bX mod bs = 0\<close>
    and len = \<open>int (length data) = 4 * cw * ch\<close>
  show ?case
  proof (cases "bX < cw")
    case False
    then have "blockX_loop bs cw ch bY bX data = Some data"
      by (subst blockX_loop.simps) simp
    then show ?thesis using False by auto
  next
    case True
    define d1 where "d1 = pixelate_block bs cw ch bY bX data"
    have len1: "int (length d1) = 4 * cw * ch" using len by (simp add: d1_def)
    have step: "blockX_loop bs cw ch bY bX data = blockX_loop bs cw ch bY (bX + bs) d1"
      using True by (subst blockX_loop.simps) (simp add: d1_def)
    have m: "nat (cw - (bX + bs)) < nat (cw - bX)" using True bs by simp
    have nb: "0 \<le> bX + bs" "(bX + bs) mod bs = 0" using bs bX by simp_all
    have "\<exists>d'. blockX_loop bs cw ch bY (bX + bs) d1 = Some d' \<and> length d' = length d1
      \<and> (\<forall>x y k. 0 \<le> x \<and> x < cw \<and> 0 \<le> y \<and> y < ch \<and> 0 \<le> k \<and> k < 4 \<longrightarrow>
            pix d' cw x y k
            = (if bX + bs \<le> x \<and> bY \<le> y \<and> y < bY + min bs (ch - bY)
               then clamp8 (block_mean (\<lambda>xx yy. pix d1 cw xx yy k) (block_start bs x) bY
                              (min bs (cw - block_start bs x)) (min bs (ch - bY)))
               else pix d1 cw x y k))"
      by (rule less.hyps[OF m bs bY nb len1])
    then obtain d' where d': "blockX_loop bs cw ch bY (bX + bs) d1 = Some d'"
      "length d' = length d1"
      and P0: "\<forall>x y k. 0 \<le> x \<and> x < cw \<and> 0 \<le> y \<and> y < ch \<and> 0 \<le> k \<and> k < 4 \<longrightarrow>
            pix d' cw x y k
            = (if bX + bs \<le> x \<and> bY \<le> y \<and> y < bY + min bs (ch - bY)
               then clamp8 (block_mean (\<lambda>xx yy. pix d1 cw xx yy k) (block_start bs x) bY
                              (min bs (cw - block_start bs x)) (min bs (ch - bY)))
               else pix d1 cw x y k)"
      by blast
    have P: "pix d' cw x y k
            = (if bX + bs \<le> x \<and> bY \<le> y \<and> y < bY + min bs (ch - bY)
               then clamp8 (block_mean (\<lambda>xx yy. pix d1 cw xx yy k) (block_start bs x) bY
                              (min bs (cw - block_start bs x)) (min bs (ch - bY)))
               else pix d1 cw x y k)"
      if "0 \<le> x" "x < cw" "0 \<le> y" "y < ch" "0 \<le> k" "k < 4" for x y k
      using P0 that by blast
    have Q: "pix d1 cw x y k
       = (if bX \<le> x \<and> x < bX + min bs (cw - bX) \<and> bY \<le> y \<and> y < bY + min bs (ch - bY)
          then clamp8 (block_mean (\<lambda>xx yy. pix data cw xx yy k) bX bY
                         (min bs (cw - bX)) (min bs (ch - bY)))
          else pix data cw x y k)"
      if "0 \<le> x" "x < cw" "0 \<le> y" "y < ch" "0 \<le> k" "k < 4" for x y k
      unfolding d1_def using that
      by (intro pix_pixelate_block[OF bs bX(1) True bY len]) auto
    have R: "pix d' cw x y k
            = (if bX \<le> x \<and> bY \<le> y \<and> y < bY + min bs (ch - bY)
               then clamp8 (block_mean (\<lambda>xx yy. pix data cw xx yy k) (block_start bs x) bY
                              (min bs (cw - block_start bs x)) (min bs (ch - bY)))
               else pix data cw x y k)"
      if x: "0 \<le> x" "x < cw" and y: "0 \<le> y" "y < ch" and k: "0 \<le> k" "k < 4" for x y k
    proof (cases "bX + bs \<le> x \<and> bY \<le> y \<and> y < bY + min bs (ch - bY)")
      case far: True
      have ge: "bX + bs \<le> block_start bs x"
        using block_start_ge[of bs "bX + bs" x] bs bX far by simp
      have le: "block_start bs x \<le> x" using block_start_bounds[OF bs, of x] by simp
      have "block_mean (\<lambda>xx yy. pix d1 cw xx yy k) (block_start bs x) bY
                (min bs (cw - block_start bs x)) (min bs (ch - bY))
          = block_mean (\<lambda>xx yy. pix data cw xx yy k) (block_start bs x) bY
                (min bs (cw - block_start bs x)) (min bs (ch - bY))"
      proof (rule block_mean_cong)
        fix xx yy
        assume c: "block_start bs x \<le> xx" "xx < block_start bs x + min bs (cw - block_start bs x)"
          "bY \<le> yy" "yy < bY + min bs (ch - bY)"
        have r: "0 \<le> xx" "xx < cw" "0 \<le> yy" "yy < ch"
          using c ge bX(1) bY bs by auto
        have "\<not> (bX \<le> xx \<and> xx < bX + min bs (cw - bX) \<and> bY \<le> yy
                \<and> yy < bY + min bs (ch - bY))"
          using c(1) ge by auto
        with Q[OF r k] show "pix d1 cw xx yy k = pix data cw xx yy k"
          by (simp only: if_False)
      qed
      then show ?thesis using P[OF x y k] far bs by simp
    next
      case near: False
      show ?thesis
      proof (cases "bX \<le> x \<and> bY \<le> y \<and> y < bY + min bs (ch - bY)")
        case True
        then have xb: "bX \<le> x" "x < bX + bs" using near by auto
        have "block_start bs x = bX" using block_start_eq[OF bs bX(2) xb] .
        moreover have "x < bX + min bs (cw - bX)" using xb x by auto
        ultimately show ?thesis using P[OF x y k] Q[OF x y k] near True by simp
      next
        case False
        then show ?thesis using P[OF x y k] Q[OF x y k] near by auto
      qed
    qed
    show ?thesis using step d' R len1 len by auto
  qed
qed

lemma blockX_loop_Some_imp:
  assumes "blockX_loop bs cw ch bY bX data = Some d"
  shows "bs \<le> 0 \<longrightarrow> cw \<le> bX"
proof (rule blockX_loop.raw_induct
    [where P = "\<lambda>bs cw ch bY bX data d. bs \<le> 0 \<longrightarrow> cw \<le> bX", OF _ assms])
  fix loop :: "int \<Rightarrow> int \<Rightarrow> int \<Rightarrow> int \<Rightarrow> int \<Rightarrow> int list \<Rightarrow> int list option"
  fix bs cw ch bY bX :: int and data d :: "int list"
  assume IH: "\<And>bs cw ch bY bX data d. loop bs cw ch bY bX data = Some d \<Longrightarrow> bs \<le> 0 \<longrightarrow> cw \<le> bX"
    and eq: "(if bX < cw then loop bs cw ch bY (bX + bs) (pixelate_block bs cw ch bY bX data)
              else Some data) = Some d"
  show "bs \<le> 0 \<longrightarrow> cw \<le> bX"
  proof (intro impI, rule ccontr)
    assume a: "bs \<le> 0" "\<not> cw \<le> bX"
    then have "loop bs cw ch bY (bX + bs) (pixelate_block bs cw ch bY bX data) = Some d"
      using eq by simp
    from IH[OF this] a show False by simp
  qed
qed

lemma blockX_loop_diverges:
  "bs \<le> 0 \<Longrightarrow> bX < cw \<Longrightarrow> blockX_loop bs cw ch bY bX data = None"
  using blockX_loop_Some_imp[of bs cw ch bY bX data] by (cases "blockX_loop bs cw ch bY bX data") auto

lemma blockY_loop_diverges:
  "bs \<le> 0 \<Longrightarrow> 0 < cw \<Longrightarrow> bY < ch \<Longrightarrow> blockY_loop bs cw ch bY data = None"
  by (subst blockY_loop.simps) (simp add: blockX_loop_diverges)

lemma blockY_loop_result:
  assumes "1 \<le> bs" "0 \<le> bY" "bY mod bs = 0" "int (length data) = 4 * cw * ch"
  shows "\<exists>d'. blockY_loop bs cw ch bY data = Some d' \<and> length d' = length data
      \<and> (\<forall>x y k. 0 \<le> x \<and> x < cw \<and> 0 \<le> y \<and> y < ch \<and> 0 \<le> k \<and> k < 4 \<longrightarrow>
            pix d' cw x y k
            = (if bY \<le> y
               then clamp8 (block_mean (\<lambda>xx yy. pix data cw xx yy k)
                              (block_start bs x) (block_start bs y)
                              (min bs (cw - block_start bs x)) (min bs (ch - block_start bs y)))
               else pix data cw x y k))"
  using assms
proof (induction "nat (ch - bY)" arbitrary: bY data rule: less_induct)
  case less
  note bs = \<open>1 \<le> bs\<close> and bY = \<open>0 \<le> bY\<close> \<open>bY mod bs = 0\<close>
    and len = \<open>int (length data) = 4 * cw * ch\<close>
  show ?case
  proof (cases "bY < ch")
    case False
    then have "blockY_loop bs cw ch bY data = Some data"
      by (subst blockY_loop.simps) simp
    then show ?thesis using False by auto
  next
    case True
    have z: "(0::int) \<le> 0" "(0::int) mod bs = 0" by simp_all
    from blockX_loop_result[OF bs bY(1) True z len]
    obtain d1 where d1: "blockX_loop bs cw ch bY 0 data = Some d1" "length d1 = length data"
      and Q0: "\<forall>x y k. 0 \<le> x \<and> x < cw \<and> 0 \<le> y \<and> y < ch \<and> 0 \<le> k \<and> k < 4 \<longrightarrow>
            pix d1 cw x y k
            = (if 0 \<le> x \<and> bY \<le> y \<and> y < bY + min bs (ch - bY)
               then clamp8 (block_mean (\<lambda>xx yy. pix data cw xx yy k) (block_start bs x) bY
                              (min bs (cw - block_start bs x)) (min bs (ch - bY)))
               else pix data cw x y k)"
      by blast
    have Q: "pix d1 cw x y k
            = (if bY \<le> y \<and> y < bY + min bs (ch - bY)
               then clamp8 (block_mean (\<lambda>xx yy. pix data cw xx yy k) (block_start bs x) bY
                              (min bs (cw - block_start bs x)) (min bs (ch - bY)))
               else pix data cw x y k)"
      if "0 \<le> x" "x < cw" "0 \<le> y" "y < ch" "0 \<le> k" "k < 4" for x y k
      using Q0 that by simp
    have len1: "int (length d1) = 4 * cw * ch" using len d1 by simp
    have step: "blockY_loop bs cw ch bY data = blockY_loop bs cw ch (bY + bs) d1"
      using True d1 by (subst blockY_loop.simps) simp
    have m: "nat (ch - (bY + bs)) < nat (ch - bY)" using True bs by simp
    have nb: "0 \<le> bY + bs" "(bY + bs) mod bs = 0" using bs bY by simp_all
    have "\<exists>d'. blockY_loop bs cw ch (bY + bs) d1 = Some d' \<and> length d' = length d1
      \<and> (\<forall>x y k. 0 \<le> x \<and> x < cw \<and> 0 \<le> y \<and> y < ch \<and> 0 \<le> k \<and> k < 4 \<longrightarrow>
            pix d' cw x y k
            = (if bY + bs \<le> y
               then clamp8 (block_mean (\<lambda>xx yy. pix d1 cw xx yy k)
                              (block_start bs x) (block_start bs y)
                              (min bs (cw - block_start bs x)) (min bs (ch - block_start bs y)))
               else pix d1 cw x y k))"
      by (rule less.hyps[OF m bs nb len1])
    then obtain d' where d': "blockY_loop bs cw ch (bY + bs) d1 = Some d'"
      "length d' = length d1"
      and P0: "\<forall>x y k. 0 \<le> x \<and> x < cw \<and> 0 \<le> y \<and> y < ch \<and> 0 \<le> k \<and> k < 4 \<longrightarrow>
            pix d' cw x y k
            = (if bY + bs \<le> y
               then clamp8 (block_mean (\<lambda>xx yy. pix d1 cw xx yy k)
                              (block_start bs x) (block_start bs y)
                              (min bs (cw - block_start bs x)) (min bs (ch - block_start bs y)))
               else pix d1 cw x y k)"
      by blast
    have P: "pix d' cw x y k
            = (if bY + bs \<le> y
               then clamp8 (block_mean (\<lambda>xx yy. pix d1 cw xx yy k)
                              (block_start bs x) (block_start bs y)
                              (min bs (cw - block_start bs x)) (min bs (ch - block_start bs y)))
               else pix d1 cw x y k)"
      if "0 \<le> x" "x < cw" "0 \<le> y" "y < ch" "0 \<le> k" "k < 4" for x y k
      using P0 that by blast
    have R: "pix d' cw x y k
            = (if bY \<le> y
               then clamp8 (block_mean (\<lambda>xx yy. pix data cw xx yy k)
                              (block_start bs x) (block_start bs y)
                              (min bs (cw - block_start bs x)) (min bs (ch - block_start bs y)))
               else pix data cw x y k)"
      if x: "0 \<le> x" "x < cw" and y: "0 \<le> y" "y < ch" and k: "0 \<le> k" "k < 4" for x y k
    proof (cases "bY + bs \<le> y")
      case far: True
      have ge: "bY + bs \<le> block_start bs y"
        using block_start_ge[of bs "bY + bs" y] bs bY far by simp
      have xs: "0 \<le> block_start bs x" using block_start_nonneg[OF bs x(1)] .
      have "block_mean (\<lambda>xx yy. pix d1 cw xx yy k) (block_start bs x) (block_start bs y)
                (min bs (cw - block_start bs x)) (min bs (ch - block_start bs y))
          = block_mean (\<lambda>xx yy. pix data cw xx yy k) (block_start bs x) (block_start bs y)
                (min bs (cw - block_start bs x)) (min bs (ch - block_start bs y))"
      proof (rule block_mean_cong)
        fix xx yy
        assume c: "block_start bs x \<le> xx" "xx < block_start bs x + min bs (cw - block_start bs x)"
          "block_start bs y \<le> yy" "yy < block_start bs y + min bs (ch - block_start bs y)"
        have r: "0 \<le> xx" "xx < cw" "0 \<le> yy" "yy < ch"
          using c ge xs bY(1) bs by auto
        have "\<not> (bY \<le> yy \<and> yy < bY + min bs (ch - bY))"
          using c(3) ge by auto
        with Q[OF r k] show "pix d1 cw xx yy k = pix data cw xx yy k"
          by (simp only: if_False)
      qed
      then show ?thesis using P[OF x y k] far bs by simp
    next
      case near: False
      show ?thesis
      proof (cases "bY \<le> y")
        case True
        then have yb: "bY \<le> y" "y < bY + bs" using near by auto
        have "block_start bs y = bY" using block_start_eq[OF bs bY(2) yb] .
        moreover have "y < bY + min bs (ch - bY)" using yb y by auto
        ultimately show ?thesis using P[OF x y k] Q[OF x y k] near True by simp
      next
        case False
        then show ?thesis using P[OF x y k] Q[OF x y k] near by auto
      qed
    qed
    show ?thesis using step d' R len1 len by auto
  qed
qed

subsection \<open>The canvas interface\<close>

lemma to_long_of_int [simp]: "to_long (Fin (of_int n)) = n"
  by simp


lemma getImageData_finite:
  assumes "0 < w" "0 < h"
  shows "getImageData c (Fin (of_int sx)) (Fin (of_int sy)) (Fin (of_int w)) (Fin (of_int h))
       = Inr \<lparr>img_width = w, img_height = h,
              img_data = map (\<lambda>i. channel_at c (sx + (i div 4) mod w) (sy + (i div 4) div w) (i mod 4))
                           [0..4 * w * h - 1]\<rparr>"
  using assms unfolding getImageData_def Let_def to_long_of_int by (simp add: min_def)


lemma length_image:
  assumes "0 < w" "0 < h"
  shows "int (length (map (f::int \<Rightarrow> int) [0..4 * w * h - 1])) = 4 * w * h"
proof -
  define n where "n = 4 * w * h"
  have "0 < n" unfolding n_def using assms by (intro mult_pos_pos) auto
  then have "int (length (map f [0..n - 1])) = n" by simp
  then show ?thesis unfolding n_def .
qed




subsection \<open>The canvas after \<^verbatim>\<open>applyPixelation\<close>\<close>







lemma applyPixelation_finite:
  assumes g: "reg_x r = Fin x" "reg_y r = Fin y" "reg_width r = Fin w" "reg_height r = Fin h"
    and cx: "cx = max 0 (js_round x)" and cy: "cy = max 0 (js_round y)"
    and cw: "cw = min (js_round w) (canvas_width c - cx)"
    and ch: "ch = min (js_round h) (canvas_height c - cy)"
  shows "applyPixelation c r =
     (if cw \<le> 0 \<or> ch \<le> 0 then Some (Inr c)
      else case blockY_loop (reg_blockSize r) cw ch 0
                  (map (\<lambda>i. channel_at c (cx + (i div 4) mod cw) (cy + (i div 4) div cw) (i mod 4))
                       [0..4 * cw * ch - 1]) of
             None \<Rightarrow> None
           | Some data \<Rightarrow>
               Some (Inr (putImageData c \<lparr>img_width = cw, img_height = ch, img_data = data\<rparr>
                            (Fin (of_int cx)) (Fin (of_int cy)))))"
proof -
  have a: "Math_max (Fin 0) (Math_round (reg_x r)) = Fin (of_int cx)"
    "Math_max (Fin 0) (Math_round (reg_y r)) = Fin (of_int cy)"
    unfolding g cx cy by (simp_all add: max_def)
  have b: "Math_min (Math_round (reg_width r)) (js_sub (Fin (of_int (canvas_width c))) (Fin (of_int cx)))
         = Fin (of_int cw)"
    "Math_min (Math_round (reg_height r)) (js_sub (Fin (of_int (canvas_height c))) (Fin (of_int cy)))
         = Fin (of_int ch)"
    unfolding g cw ch js_sub_def by (simp_all add: min_def)
  have le: "js_le (Fin (of_int cw)) (Fin 0) = (cw \<le> 0)" "js_le (Fin (of_int ch)) (Fin 0) = (ch \<le> 0)"
    by simp_all
  show ?thesis
  proof (cases "cw \<le> 0 \<or> ch \<le> 0")
    case True
    then show ?thesis unfolding applyPixelation_def Let_def a b le by simp
  next
    case False
    then have p: "0 < cw" "0 < ch" by auto
    show ?thesis
      unfolding applyPixelation_def Let_def a b le getImageData_finite[OF p] to_long_of_int
      using False by (simp split: option.splits)
  qed
qed



lemma applyPixelation_empty_clip:
  assumes g: "reg_x r = Fin x" "reg_y r = Fin y" "reg_width r = Fin w" "reg_height r = Fin h"
    and cx: "cx = max 0 (js_round x)" and cy: "cy = max 0 (js_round y)"
    and cw: "cw = min (js_round w) (canvas_width c - cx)"
    and ch: "ch = min (js_round h) (canvas_height c - cy)"
    and e: "cw \<le> 0 \<or> ch \<le> 0"
  shows "applyPixelation c r = Some (Inr c)"
  unfolding applyPixelation_finite[OF g cx cy cw ch] using e by simp

lemma applyPixelation_terminates:
  assumes g: "reg_x r = Fin x" "reg_y r = Fin y" "reg_width r = Fin w" "reg_height r = Fin h"
    and bs: "1 \<le> reg_blockSize r"
  shows "\<exists>c'. applyPixelation c r = Some (Inr c')"
proof -
  define cx cy where "cx = max 0 (js_round x)" and "cy = max 0 (js_round y)"
  define cw ch where "cw = min (js_round w) (canvas_width c - cx)"
    and "ch = min (js_round h) (canvas_height c - cy)"
  show ?thesis
  proof (cases "cw \<le> 0 \<or> ch \<le> 0")
    case True
    then show ?thesis
      using applyPixelation_empty_clip[OF g cx_def cy_def cw_def ch_def] by simp
  next
    case False
    then have p: "0 < cw" "0 < ch" by auto
    define data0 where "data0 =
       map (\<lambda>i. channel_at c (cx + (i div 4) mod cw) (cy + (i div 4) div cw) (i mod 4))
         [0..4 * cw * ch - 1]"
    have len0: "int (length data0) = 4 * cw * ch"
      unfolding data0_def by (rule length_image[OF p])
    have z: "(0::int) \<le> 0" "(0::int) mod reg_blockSize r = 0" by simp_all
    from blockY_loop_result[OF bs z len0]
    obtain d' where "blockY_loop (reg_blockSize r) cw ch 0 data0 = Some d'" by blast
    then show ?thesis
      unfolding applyPixelation_finite[OF g cx_def cy_def cw_def ch_def]
      using False by (simp add: data0_def)
  qed
qed

lemma applyPixelation_diverges:
  assumes g: "reg_x r = Fin x" "reg_y r = Fin y" "reg_width r = Fin w" "reg_height r = Fin h"
    and cx: "cx = max 0 (js_round x)" and cy: "cy = max 0 (js_round y)"
    and cw: "cw = min (js_round w) (canvas_width c - cx)"
    and ch: "ch = min (js_round h) (canvas_height c - cy)"
    and p: "0 < cw" "0 < ch"
    and bs: "reg_blockSize r \<le> 0"
  shows "applyPixelation c r = None"
  unfolding applyPixelation_finite[OF g cx cy cw ch]
  using p by (simp add: blockY_loop_diverges[OF bs p])



lemma fillRect_frame:
  "canvas_width (fillRect c x y w h) = canvas_width c
   \<and> canvas_height (fillRect c x y w h) = canvas_height c
   \<and> length (pixels (fillRect c x y w h)) = length (pixels c)"
  by (simp add: fillRect_def Let_def split: jsnum.splits)


section \<open>Termination, block means and the order of regions\<close>

text \<open>
  C10. For a region of finite geometry, \<^verbatim>\<open>applyPixelation\<close> returns whenever
  \<open>blockSize \<ge> 1\<close>. With \<open>blockSize \<le> 0\<close> and a clipped rectangle that is not empty (so
  that the block loops are entered) it never returns: the loops step by \<open>blockSize\<close>.
  The store does not establish \<open>blockSize \<ge> 1\<close>: \<^verbatim>\<open>addRegion\<close> accepts any block size
  with an acceptable geometry and stores it as given.
\<close>

theorem blockSize_termination_precondition:
  assumes "reg_x r = Fin x" "reg_y r = Fin y" "reg_width r = Fin w" "reg_height r = Fin h"
    and "cx = max 0 (js_round x)" and "cy = max 0 (js_round y)"
    and "cw = min (js_round w) (canvas_width c - cx)"
    and "ch = min (js_round h) (canvas_height c - cy)"
  shows "(1 \<le> reg_blockSize r \<longrightarrow> (\<exists>c'. applyPixelation c r = Some (Inr c')))
       \<and> (reg_blockSize r \<le> 0 \<and> 0 < cw \<and> 0 < ch \<longrightarrow> applyPixelation c r = None)
       \<and> (2 \<le> \<bar>aw\<bar> \<and> 2 \<le> \<bar>ah\<bar> \<longrightarrow>
            fst (addRegion gid (Fin ax) (Fin ay) (Fin aw) (Fin ah) m bs fc s) = Some gid
            \<and> reg_blockSize (last (regions (snd
                 (addRegion gid (Fin ax) (Fin ay) (Fin aw) (Fin ah) m bs fc s)))) = bs)"
proof (intro conjI impI)
  assume "1 \<le> reg_blockSize r"
  then show "\<exists>c'. applyPixelation c r = Some (Inr c')"
    by (rule applyPixelation_terminates[OF assms(1-4)])
next
  assume "reg_blockSize r \<le> 0 \<and> 0 < cw \<and> 0 < ch"
  then show "applyPixelation c r = None"
    using applyPixelation_diverges[OF assms] by simp
next
  assume a: "2 \<le> \<bar>aw\<bar> \<and> 2 \<le> \<bar>ah\<bar>"
  then show "fst (addRegion gid (Fin ax) (Fin ay) (Fin aw) (Fin ah) m bs fc s) = Some gid"
    by (simp add: addRegion_accepted)
  from a show "reg_blockSize (last (regions (snd
                 (addRegion gid (Fin ax) (Fin ay) (Fin aw) (Fin ah) m bs fc s)))) = bs"
    by (simp add: addRegion_accepted)
qed

theorem blockSize_termination_precondition_witness:
  "regions (snd (addRegion ''a'' (Fin 0) (Fin 0) (Fin 2) (Fin 2) pixelate 0 ''#000000'' emptyStore))
     = [\<lparr>reg_id = ''a'', reg_x = Fin 0, reg_y = Fin 0, reg_width = Fin 2, reg_height = Fin 2,
          reg_mode = pixelate, reg_blockSize = 0, reg_fillColor = ''#000000''\<rparr>]
   \<and> applyPixelation
        \<lparr>canvas_width = 2, canvas_height = 2, pixels = replicate 16 0, fillStyle = (0, 0, 0)\<rparr>
        \<lparr>reg_id = ''a'', reg_x = Fin 0, reg_y = Fin 0, reg_width = Fin 2, reg_height = Fin 2,
          reg_mode = pixelate, reg_blockSize = 0, reg_fillColor = ''#000000''\<rparr> = None
   \<and> (\<exists>c'. applyPixelation
        \<lparr>canvas_width = 2, canvas_height = 2, pixels = replicate 16 0, fillStyle = (0, 0, 0)\<rparr>
        \<lparr>reg_id = ''a'', reg_x = Fin 0, reg_y = Fin 0, reg_width = Fin 2, reg_height = Fin 2,
          reg_mode = pixelate, reg_blockSize = 4, reg_fillColor = ''#000000''\<rparr> = Some (Inr c'))"
  using blockSize_termination_precondition
    [of "\<lparr>reg_id = ''a'', reg_x = Fin 0, reg_y = Fin 0, reg_width = Fin 2, reg_height = Fin 2,
          reg_mode = pixelate, reg_blockSize = 0, reg_fillColor = ''#000000''\<rparr>"
        0 0 2 2 0 0 2
        "\<lparr>canvas_width = 2, canvas_height = 2, pixels = replicate 16 0, fillStyle = (0, 0, 0)\<rparr>"
        2 2 2 "''a''" 0 0 pixelate 0 "''#000000''" emptyStore]
    blockSize_termination_precondition
    [of "\<lparr>reg_id = ''a'', reg_x = Fin 0, reg_y = Fin 0, reg_width = Fin 2, reg_height = Fin 2,
          reg_mode = pixelate, reg_blockSize = 4, reg_fillColor = ''#000000''\<rparr>"
        0 0 2 2 0 0 2
        "\<lparr>canvas_width = 2, canvas_height = 2, pixels = replicate 16 0, fillStyle = (0, 0, 0)\<rparr>"
        2 2 2 "''a''" 0 0 pixelate 0 "''#000000''" emptyStore]
  by (simp add: js_round_def addRegion_def Let_def pushUndo_def emptyStore_def)






subsection \<open>The clipped rectangle of a region that starts off the image\<close>




end
